theory Spec2Isabelle
  imports Complex_Main
begin

section \<open>Python strings\<close>

text \<open>
  A Python \<^verbatim>\<open>str\<close> is a sequence of code points. It is modelled as a \<^typ>\<open>string\<close>
  whose characters are the code points 0..255 (Latin-1); \<open>ord\<close> reads the code point.
  The character classes below are those of CPython's \<^verbatim>\<open>str.isspace\<close>,
  \<^verbatim>\<open>str.isupper\<close> and \<^verbatim>\<open>str.lower\<close> on that range.
\<close>

definition ord :: "char \<Rightarrow> nat" where
  "ord c = of_char c"

definition isspace :: "char \<Rightarrow> bool" where
  "isspace c = (ord c \<in> set [9, 10, 11, 12, 13, 28, 29, 30, 31, 32, 133, 160])"

definition isupper :: "char \<Rightarrow> bool" where
  "isupper c =
     (let n = ord c in (65 \<le> n \<and> n \<le> 90) \<or> (192 \<le> n \<and> n \<le> 222 \<and> n \<noteq> 215))"

definition lower_char :: "char \<Rightarrow> char" where
  "lower_char c = (if isupper c then char_of (ord c + 32) else c)"

text \<open>\<^verbatim>\<open>s.lower()\<close>\<close>

definition lower :: "string \<Rightarrow> string" where
  "lower s = map lower_char s"

text \<open>
  \<^verbatim>\<open>s.strip()\<close> and \<^verbatim>\<open>s.strip(chars)\<close>: every leading and every trailing character of the
  class is removed, however many there are.
\<close>

definition strip_by :: "(char \<Rightarrow> bool) \<Rightarrow> string \<Rightarrow> string" where
  "strip_by P s = rev (dropWhile P (rev (dropWhile P s)))"

definition strip :: "string \<Rightarrow> string" where
  "strip s = strip_by isspace s"

definition strip_chars :: "string \<Rightarrow> string \<Rightarrow> string" where
  "strip_chars chars s = strip_by (\<lambda>c. c \<in> set chars) s"

text \<open>\<^verbatim>\<open>s.startswith(p)\<close>\<close>

definition startswith :: "string \<Rightarrow> string \<Rightarrow> bool" where
  "startswith s p = (take (length p) s = p)"

text \<open>\<^verbatim>\<open>sub in s\<close>: \<open>sub\<close> occurs in \<open>s\<close> as a contiguous substring.\<close>

fun contains :: "string \<Rightarrow> string \<Rightarrow> bool" where
  "contains sub [] = (sub = [])"
| "contains sub (c # cs) = (startswith (c # cs) sub \<or> contains sub cs)"

text \<open>\<^verbatim>\<open>s.split(sep)[0]\<close> for a non-empty \<open>sep\<close>: the text before the first occurrence.\<close>

fun split_first :: "string \<Rightarrow> string \<Rightarrow> string" where
  "split_first sep [] = []"
| "split_first sep (c # cs) = (if startswith (c # cs) sep then [] else c # split_first sep cs)"

text \<open>\<^verbatim>\<open>s.split()\<close>: the maximal runs of non-whitespace characters, in order.\<close>

function split_ws :: "string \<Rightarrow> string list" where
  "split_ws s =
     (if dropWhile isspace s = [] then []
      else takeWhile (\<lambda>c. \<not> isspace c) (dropWhile isspace s)
           # split_ws (dropWhile (\<lambda>c. \<not> isspace c) (dropWhile isspace s)))"
  by pat_completeness auto
termination
proof (relation "measure length")
  show "wf (measure length)" by simp
next
  fix s :: string
  let ?t = "dropWhile isspace s"
  assume ne: "?t \<noteq> []"
  then have "\<not> isspace (hd ?t)" by (rule hd_dropWhile)
  with ne have "dropWhile (\<lambda>c. \<not> isspace c) ?t = dropWhile (\<lambda>c. \<not> isspace c) (tl ?t)"
    by (cases ?t) simp_all
  then have "length (dropWhile (\<lambda>c. \<not> isspace c) ?t) \<le> length (tl ?t)"
    using length_dropWhile_le [of "\<lambda>c. \<not> isspace c" "tl ?t"] by simp
  also from ne have "\<dots> < length ?t" by simp
  also have "\<dots> \<le> length s" by (rule length_dropWhile_le)
  finally show "(dropWhile (\<lambda>c. \<not> isspace c) ?t, s) \<in> measure length" by simp
qed

declare split_ws.simps [simp del]

text \<open>\<^verbatim>\<open>sep.join(words)\<close>\<close>

fun join :: "string \<Rightarrow> string list \<Rightarrow> string" where
  "join sep [] = []"
| "join sep [w] = w"
| "join sep (w # v # ws) = w @ sep @ join sep (v # ws)"

section \<open>The caption clean-up pipeline\<close>

definition prefixes_to_remove :: "string list" where
  "prefixes_to_remove =
     [''caption:'', ''caption is:'', ''the caption:'', ''description:'',
      ''image caption:'', ''caption:'', ''a simple caption:'',
      ''ml-style caption:'', ''resnet50 caption:'']"

definition explanation_markers :: "string list" where
  "explanation_markers =
     ['' - '', '' because '', '' since '', '' as '', '' ('', '' ['', [CHR 0x0A]]"

text \<open>
  \<^verbatim>\<open>caption.strip().strip('"').strip("'").strip()\<close>, the statement under the comment
  ``Remove quotes if present''.
\<close>

definition remove_quotes :: "string \<Rightarrow> string" where
  "remove_quotes caption = strip (strip_chars [CHR 0x27] (strip_chars [CHR 0x22] (strip caption)))"

text \<open>
  The loop over \<open>prefixes_to_remove\<close>. \<open>caption_lower\<close> is computed once before the loop,
  and the loop is left at the first prefix that matches.
\<close>

fun remove_prefix :: "string list \<Rightarrow> string \<Rightarrow> string \<Rightarrow> string" where
  "remove_prefix [] caption_lower caption = caption"
| "remove_prefix (p # ps) caption_lower caption =
     (if startswith caption_lower p then strip (drop (length p) caption)
      else remove_prefix ps caption_lower caption)"

text \<open>The loop over \<open>explanation_markers\<close>, left at the first marker found in the caption.\<close>

fun remove_explanation :: "string list \<Rightarrow> string \<Rightarrow> string" where
  "remove_explanation [] caption = caption"
| "remove_explanation (m # ms) caption =
     (if contains m caption then strip (split_first m caption)
      else remove_explanation ms caption)"

text \<open>``Ensure lowercase start'': only the first character is ever changed.\<close>

definition lowercase_start :: "string \<Rightarrow> string" where
  "lowercase_start caption =
     (if caption \<noteq> [] \<and> isupper (hd caption) \<and> length (split_ws caption) \<le> 15
      then (if length caption > 1 then lower [hd caption] @ tl caption else lower caption)
      else caption)"

text \<open>``Limit length''.\<close>

definition limit_length :: "string \<Rightarrow> string" where
  "limit_length caption =
     (let words = split_ws caption
      in if length words > 18 then join '' '' (take 18 words) else caption)"

definition cleanup_caption :: "string \<Rightarrow> string" where
  "cleanup_caption caption =
     (if caption = [] then caption
      else
        let caption1 = remove_quotes caption;
            caption_lower = lower caption1;
            caption2 = remove_prefix prefixes_to_remove caption_lower caption1;
            caption3 = remove_explanation explanation_markers caption2;
            caption4 = lowercase_start caption3;
            caption5 = limit_length caption4
        in strip caption5)"

subsection \<open>The first step as the specification words it\<close>



subsection \<open>Captions that the pipeline leaves alone\<close>

text \<open>
  A caption is settled when no step of the pipeline finds anything to remove: it neither
  begins nor ends with a quote character, its lowercased text begins with none of the
  prefixes, and it contains none of the explanation markers.
\<close>

definition settled :: "string \<Rightarrow> bool" where
  "settled r =
     ((r = [] \<or> (hd r \<notin> set [CHR 0x22, CHR 0x27] \<and> last r \<notin> set [CHR 0x22, CHR 0x27]))
      \<and> (\<forall>p \<in> set prefixes_to_remove. \<not> startswith (lower r) p)
      \<and> (\<forall>m \<in> set explanation_markers. \<not> contains m r))"

text \<open>A caption without leading or trailing whitespace.\<close>

definition stripped :: "string \<Rightarrow> bool" where
  "stripped s \<longleftrightarrow> s = [] \<or> (\<not> isspace (hd s) \<and> \<not> isspace (last s))"

text \<open>Once the first character has been looked at, the step has nothing left to do.\<close>

definition start_done :: "string \<Rightarrow> bool" where
  "start_done c \<longleftrightarrow> \<not> (c \<noteq> [] \<and> isupper (hd c) \<and> length (split_ws c) \<le> 15)"

section \<open>The acceptance heuristic\<close>

definition people_words :: "string list" where
  "people_words =
     [''man'', ''woman'', ''person'', ''people'', ''crowd'', ''standing'', ''sitting'', ''walking'']"

definition vehicle_words :: "string list" where
  "vehicle_words =
     [''car'', ''cars'', ''vehicle'', ''vehicles'', ''street'', ''road'', ''parked'', ''driving'']"

text \<open>
  \<open>original_words\<close> and \<open>enhanced_words\<close> are Python sets, so \<open>len(original_words)\<close> counts
  the distinct lowercased words. The quotient is a binary64 division in the source; it
  is taken here in the reals, which decides the comparison with 0.2 the same way for
  every word count below \<open>10\<^sup>1\<^sup>5\<close>.
\<close>

definition is_valid_enhancement :: "string \<Rightarrow> string \<Rightarrow> bool" where
  "is_valid_enhancement original enhanced =
     (if enhanced = [] \<or> length (strip enhanced) = 0 then False
      else
        let original_lower = lower original;
            enhanced_lower = lower enhanced;
            has_people = (\<exists>word \<in> set people_words. contains word original_lower);
            has_vehicles = (\<exists>word \<in> set vehicle_words. contains word enhanced_lower)
        in if has_people \<and> has_vehicles then True
           else
             let original_words = set (split_ws (lower original));
                 enhanced_words = set (split_ws (lower enhanced));
                 overlap = card (original_words \<inter> enhanced_words)
             in if real overlap / real (max (card original_words) 1) < 0.2 then False
                else True)"

subsection \<open>The heuristic as the specification words it\<close>

text \<open>
  The specification divides the overlap by \<open>word_count(original)\<close>, the number of words
  of the original caption. Containment of a word of the fixed sets is read as the source
  has it: as a substring of the lowercased text.
\<close>

definition word_count :: "string \<Rightarrow> nat" where
  "word_count s = length (split_ws s)"

definition overlap_count :: "string \<Rightarrow> string \<Rightarrow> nat" where
  "overlap_count original enhanced =
     card (set (split_ws (lower original)) \<inter> set (split_ws (lower enhanced)))"

definition is_valid_enhancement_spec :: "string \<Rightarrow> string \<Rightarrow> bool" where
  "is_valid_enhancement_spec original enhanced =
     (if strip enhanced = [] then False
      else if (\<exists>word \<in> set people_words. contains word (lower original))
              \<and> (\<exists>word \<in> set vehicle_words. contains word (lower enhanced)) then True
      else if real (overlap_count original enhanced) / real (max (word_count original) 1) < 0.2
      then False
      else True)"

text \<open>The same four steps with the number of distinct lowercased words as the divisor.\<close>

definition distinct_word_count :: "string \<Rightarrow> nat" where
  "distinct_word_count s = card (set (split_ws (lower s)))"

definition is_valid_enhancement_amended :: "string \<Rightarrow> string \<Rightarrow> bool" where
  "is_valid_enhancement_amended original enhanced =
     (if strip enhanced = [] then False
      else if (\<exists>word \<in> set people_words. contains word (lower original))
              \<and> (\<exists>word \<in> set vehicle_words. contains word (lower enhanced)) then True
      else if real (overlap_count original enhanced)
                / real (max (distinct_word_count original) 1) < 0.2
      then False
      else True)"

section \<open>The enhancer\<close>

text \<open>
  An \<open>exn\<close> is an instance of Python's \<^verbatim>\<open>Exception\<close>, with the class that the handlers
  of this program tell apart (\<^verbatim>\<open>OSError\<close>, of which \<^verbatim>\<open>PermissionError\<close> is a subclass) and
  the text that \<^verbatim>\<open>str(e)\<close> gives. A result \<open>Inl e\<close> is the exception \<open>e\<close> leaving the
  function.
\<close>

datatype exn = Exception string | OSError string

fun str :: "exn \<Rightarrow> string" where
  "str (Exception m) = m"
| "str (OSError m) = m"

datatype image = Image "nat list"

text \<open>What a call does to the outside, in order.\<close>

datatype event =
    Sleep
  | Path_exists string
  | Image_open string
  | Vision_generate string image
  | Text_generate string
  | Print string

text \<open>
  The outside world of one call: the file system, the image library and the hosted
  model. \<open>vision_generate\<close> and \<open>text_generate\<close> give \<^verbatim>\<open>response.text\<close> of
  \<^verbatim>\<open>generate_content\<close>, or the exception that either raises.
\<close>

record world =
  path_exists :: "string \<Rightarrow> bool"
  image_open :: "string \<Rightarrow> exn + image"
  vision_generate :: "string \<Rightarrow> image \<Rightarrow> exn + string"
  text_generate :: "string \<Rightarrow> exn + string"

record enhancer =
  enhancement_enabled :: bool

definition vision_prompt :: "string \<Rightarrow> string" where
  \<open>vision_prompt original_caption =
     join [CHR 0x0A]
      [[],
       ''            Generate a simple image caption that looks like it came from a ResNet50+LSTM model. '',
       ''            '',
       ''            Original caption: "'' @ original_caption @ ''"'',
       ''            '',
       ''            Requirements:'',
       ''            - Write a simple, straightforward caption (8-15 words max)'',
       ''            - Use simple, direct language - no flowery descriptions'',
       ''            - Format: "a [subject] is [action] [location/scene]"'',
       ''            - Focus on main objects and basic actions only'',
       ''            - No detailed descriptions, emotions, or artistic language'',
       ''            - Keep it factual and minimal - like a machine learning model output'',
       ''            - Example style: "a man is standing in front of a building" not "A distinguished gentleman stands confidently in front of a modern architectural structure"'',
       ''            '',
       ''            Generate a simple ML-style caption:'']\<close>

definition enhancement_prompt :: "string \<Rightarrow> string" where
  \<open>enhancement_prompt original_caption =
     join [CHR 0x0A]
      [[],
       ''        Generate a simple image caption in the style of a ResNet50+LSTM model output.'',
       ''        '',
       ''        Original caption: "'' @ original_caption @ ''"'',
       ''        '',
       ''        Requirements:'',
       ''        - Generate a simple, direct caption (8-15 words maximum)'',
       ''        - Use basic, straightforward language only'',
       ''        - Format like ML models: "a [subject] is [action] [location]"'',
       ''        - Focus on main objects and basic scene description'',
       ''        - No detailed descriptions or complex sentences'',
       ''        - Keep it short and factual - typical ML model style'',
       ''        - Example: "a man is standing in front of a building" or "a car is parked on the street"'',
       ''        - Return only the caption, no explanations'',
       ''        '',
       ''        Simple ML-style caption:'']\<close>

text \<open>The tail shared by both paths: clean the answer up, validate it, keep or discard it.\<close>

definition accept_or_keep :: "string \<Rightarrow> string \<Rightarrow> string" where
  "accept_or_keep original_caption text =
     (let enhanced_caption = cleanup_caption (strip text)
      in if is_valid_enhancement original_caption enhanced_caption then enhanced_caption
         else original_caption)"

definition enhance_without_vision :: "world \<Rightarrow> string \<Rightarrow> (exn + string) \<times> event list" where
  "enhance_without_vision w original_caption =
     (let prompt = enhancement_prompt original_caption
      in case text_generate w prompt of
           Inl e \<Rightarrow> (Inl e, [Text_generate prompt])
         | Inr text \<Rightarrow> (Inr (accept_or_keep original_caption text), [Text_generate prompt]))"

text \<open>
  The handler of \<open>_enhance_with_vision\<close> prints and calls the text-only path; an
  exception of that call leaves \<open>_enhance_with_vision\<close>.
\<close>

definition vision_failed :: "world \<Rightarrow> string \<Rightarrow> exn \<Rightarrow> event list \<Rightarrow> (exn + string) \<times> event list" where
  "vision_failed w original_caption e done =
     (let (r, evs) = enhance_without_vision w original_caption
      in (r, done @ [Print (''Vision enhancement failed: '' @ str e)] @ evs))"

definition enhance_with_vision :: "world \<Rightarrow> string \<Rightarrow> string \<Rightarrow> (exn + string) \<times> event list" where
  "enhance_with_vision w original_caption image_path =
     (case image_open w image_path of
        Inl e \<Rightarrow> vision_failed w original_caption e [Image_open image_path]
      | Inr img \<Rightarrow>
          (let prompt = vision_prompt original_caption
           in (case vision_generate w prompt img of
                 Inl e \<Rightarrow>
                   vision_failed w original_caption e
                     [Image_open image_path, Vision_generate prompt img]
               | Inr text \<Rightarrow>
                   (Inr (accept_or_keep original_caption text),
                    [Image_open image_path, Vision_generate prompt img]))))"

text \<open>
  \<^verbatim>\<open>image_path and os.path.exists(image_path)\<close>: \<^verbatim>\<open>None\<close> and the empty string are false
  and the file system is then not asked.
\<close>

definition dispatch :: "world \<Rightarrow> string \<Rightarrow> string option \<Rightarrow> (exn + string) \<times> event list" where
  "dispatch w original_caption image_path =
     (case image_path of
        None \<Rightarrow> enhance_without_vision w original_caption
      | Some p \<Rightarrow>
          if p = [] then enhance_without_vision w original_caption
          else
            let (r, evs) =
                  (if path_exists w p then enhance_with_vision w original_caption p
                   else enhance_without_vision w original_caption)
            in (r, Path_exists p # evs))"

definition enhance_caption ::
  "enhancer \<Rightarrow> world \<Rightarrow> string \<Rightarrow> string option \<Rightarrow> (exn + string) \<times> event list" where
  "enhance_caption self w original_caption image_path =
     (if \<not> enhancement_enabled self then (Inr original_caption, [])
      else
        case dispatch w original_caption image_path of
          (Inr s, evs) \<Rightarrow> (Inr s, Sleep # evs)
        | (Inl e, evs) \<Rightarrow>
            (Inr original_caption,
             Sleep # evs @ [Print (''Visual enhancement failed, using original: '' @ str e)]))"

section \<open>The upload handler\<close>

datatype json = JBool bool | JString string

text \<open>A response is the JSON object, as its fields in order, and the HTTP status.\<close>

type_synonym response = "(string \<times> json) list \<times> nat"

record file_storage =
  filename :: string

text \<open>
  \<open>files\<close> is \<^verbatim>\<open>request.files\<close>: the uploaded files by field name, the first one winning
  for a repeated name, or the exception that parsing the request raises.
\<close>

record request =
  files :: "exn + (string \<times> file_storage) list"

text \<open>
  The server's side of one request: the staging directory, the captioning module, and
  what the file system answers at each attempt of the clean-up.
\<close>

record server =
  makedirs :: "string \<Rightarrow> exn option"
  save :: "file_storage \<Rightarrow> string \<Rightarrow> exn option"
  getBothCaptions :: "string \<Rightarrow> exn + string \<times> string"
  fs_exists :: "nat \<Rightarrow> string \<Rightarrow> bool"
  os_remove :: "nat \<Rightarrow> string \<Rightarrow> exn option"

text \<open>\<^verbatim>\<open>os.path.join\<close> on POSIX, for a first component without a trailing slash.\<close>

definition os_path_join :: "string \<Rightarrow> string \<Rightarrow> string" where
  "os_path_join a b = (if startswith b ''/'' then b else a @ ''/'' @ b)"

text \<open>
  The loop of \<open>cleanup_file_with_retry\<close> over \<^verbatim>\<open>range(max_retries)\<close>. Only \<^verbatim>\<open>OSError\<close> is
  caught; a file that is absent lets the loop go on to the next attempt.
\<close>

fun cleanup_attempts :: "server \<Rightarrow> string \<Rightarrow> nat \<Rightarrow> nat list \<Rightarrow> exn + bool" where
  "cleanup_attempts srv filepath max_retries [] = Inr False"
| "cleanup_attempts srv filepath max_retries (attempt # rest) =
     (if fs_exists srv attempt filepath then
        (case os_remove srv attempt filepath of
           None \<Rightarrow> Inr True
         | Some (OSError m) \<Rightarrow>
             if attempt < max_retries - 1 then cleanup_attempts srv filepath max_retries rest
             else Inr False
         | Some (Exception m) \<Rightarrow> Inl (Exception m))
      else cleanup_attempts srv filepath max_retries rest)"

definition cleanup_file_with_retry :: "server \<Rightarrow> string \<Rightarrow> exn + bool" where
  "cleanup_file_with_retry srv filepath = cleanup_attempts srv filepath 3 [0..<3]"

definition error_response :: "string \<Rightarrow> nat \<Rightarrow> response" where
  "error_response msg status = ([(''error'', JString msg)], status)"

text \<open>
  The body of the \<^verbatim>\<open>try\<close> of \<open>upload_file\<close>. \<^verbatim>\<open>if file:\<close> asks whether the file name is
  non-empty; when it is not, the function falls off its end and returns \<^verbatim>\<open>None\<close>.
  The \<^verbatim>\<open>finally\<close> clause runs the clean-up whatever the captioning call did, and an
  exception of the clean-up replaces the outcome of the captioning call.
\<close>

definition upload_body :: "server \<Rightarrow> request \<Rightarrow> exn + response option" where
  "upload_body srv req =
     (case files req of
        Inl e \<Rightarrow> Inl e
      | Inr fs \<Rightarrow>
          (case map_of fs ''file'' of
             None \<Rightarrow> Inr (Some (error_response ''No file uploaded'' 400))
           | Some file \<Rightarrow>
               if filename file = [] then Inr (Some (error_response ''No file selected'' 400))
               else if filename file \<noteq> [] then
                 (let filepath = os_path_join ''uploads'' (filename file)
                  in (case makedirs srv ''uploads'' of
                        Some e \<Rightarrow> Inl e
                      | None \<Rightarrow>
                          (case save srv file filepath of
                             Some e \<Rightarrow> Inl e
                           | None \<Rightarrow>
                               (let captions = getBothCaptions srv filepath
                                in (case cleanup_file_with_retry srv filepath of
                                      Inl e \<Rightarrow> Inl e
                                    | Inr deleted \<Rightarrow>
                                        (case captions of
                                           Inl e \<Rightarrow> Inl e
                                         | Inr (original_caption, enhanced_caption) \<Rightarrow>
                                             Inr (Some
                                               ([(''success'', JBool True),
                                                 (''enhanced_caption'', JString enhanced_caption),
                                                 (''original_caption'', JString original_caption)],
                                                200))))))))
               else Inr None))"

definition upload_file :: "server \<Rightarrow> request \<Rightarrow> response option" where
  "upload_file srv req =
     (case upload_body srv req of
        Inl e \<Rightarrow> Some (error_response (str e) 500)
      | Inr r \<Rightarrow> r)"

section \<open>Facts about the string operations\<close>

lemma isspace_lower_char [simp]: "isspace (lower_char ch) = isspace ch"
  by (auto simp: lower_char_def isupper_def isspace_def ord_def Let_def)

lemma strip_by_Nil_iff: "strip_by P s = [] \<longleftrightarrow> (\<forall>c \<in> set s. P c)"
proof -
  have "strip_by P s = [] \<longleftrightarrow> (\<forall>c \<in> set (dropWhile P s). P c)"
    by (simp add: strip_by_def)
  also have "\<dots> \<longleftrightarrow> dropWhile P s = []"
    using hd_dropWhile [of P s] by (cases "dropWhile P s") (auto dest: set_dropWhileD)
  also have "\<dots> \<longleftrightarrow> (\<forall>c \<in> set s. P c)" by simp
  finally show ?thesis .
qed

lemma strip_Nil_iff: "strip s = [] \<longleftrightarrow> (\<forall>ch \<in> set s. isspace ch)"
  by (simp add: strip_def strip_by_Nil_iff)

lemma split_ws_Nil_iff: "split_ws s = [] \<longleftrightarrow> (\<forall>ch \<in> set s. isspace ch)"
  by (subst split_ws.simps) simp

lemma split_ws_lower_Nil_iff: "split_ws (lower s) = [] \<longleftrightarrow> (\<forall>ch \<in> set s. isspace ch)"
  by (simp add: split_ws_Nil_iff lower_def)

subsection \<open>Words\<close>

lemma split_ws_dropWhile: "split_ws (dropWhile isspace s) = split_ws s"
  by (subst (1 2) split_ws.simps) simp

lemma split_ws_leading: "\<forall>ch \<in> set pre. isspace ch \<Longrightarrow> split_ws (pre @ s) = split_ws s"
proof -
  assume "\<forall>ch \<in> set pre. isspace ch"
  then have "dropWhile isspace (pre @ s) = dropWhile isspace s"
    by (simp add: dropWhile_append)
  then show ?thesis
    using split_ws_dropWhile [of "pre @ s"] split_ws_dropWhile [of s] by simp
qed

lemma split_ws_word:
  assumes "w \<noteq> []" "\<forall>ch \<in> set w. \<not> isspace ch" "s = [] \<or> isspace (hd s)"
  shows "split_ws (w @ s) = w # split_ws s"
proof -
  from assms(1,2) have hdw: "\<not> isspace (hd (w @ s))" by (cases w) auto
  with assms(1) have dw: "dropWhile isspace (w @ s) = w @ s"
    by (simp add: dropWhile_eq_self_iff)
  from assms(2,3) have tw: "takeWhile (\<lambda>c. \<not> isspace c) (w @ s) = w"
    by (cases s) (auto simp: takeWhile_append)
  from assms(2,3) have "dropWhile (\<lambda>c. \<not> isspace c) (w @ s) = s"
    by (cases s) (auto simp: dropWhile_append)
  with dw tw assms(1) show ?thesis
    by (subst split_ws.simps) simp
qed

lemma split_ws_append_space:
  "isspace c \<Longrightarrow> split_ws (u @ c # v) = split_ws u @ split_ws v"
proof (induction u rule: split_ws.induct)
  case (1 u)
  let ?t = "dropWhile isspace u"
  show ?case
  proof (cases "?t = []")
    case True
    then have all: "\<forall>ch \<in> set u. isspace ch" by simp
    then have "split_ws u = []" by (subst split_ws.simps) simp
    moreover from all "1.prems" have "split_ws (u @ c # v) = split_ws v"
      using split_ws_leading [of "u @ [c]" v] by simp
    ultimately show ?thesis by simp
  next
    case False
    let ?w = "takeWhile (\<lambda>c. \<not> isspace c) ?t"
    let ?r = "dropWhile (\<lambda>c. \<not> isspace c) ?t"
    from False have "\<not> isspace (hd ?t)" by (rule hd_dropWhile)
    with False have wne: "?w \<noteq> []" by (cases ?t) auto
    have wns: "\<forall>ch \<in> set ?w. \<not> isspace ch" by (auto dest: set_takeWhileD)
    have rsp: "?r = [] \<or> isspace (hd ?r)"
      using hd_dropWhile [of "\<lambda>c. \<not> isspace c" ?t] by auto
    have "split_ws (u @ c # v) = split_ws ((takeWhile isspace u @ ?t) @ c # v)"
      by (simp only: takeWhile_dropWhile_id)
    also have "\<dots> = split_ws (takeWhile isspace u @ ?t @ c # v)"
      by (simp only: append_assoc)
    also have "\<dots> = split_ws (?t @ c # v)"
      by (rule split_ws_leading) (auto dest: set_takeWhileD)
    also have "\<dots> = split_ws ((?w @ ?r) @ c # v)"
      by (simp only: takeWhile_dropWhile_id)
    also have "\<dots> = split_ws (?w @ (?r @ c # v))"
      by (simp only: append_assoc)
    also have "\<dots> = ?w # split_ws (?r @ c # v)"
    proof (rule split_ws_word [OF wne wns])
      show "?r @ c # v = [] \<or> isspace (hd (?r @ c # v))"
      proof (cases "?r = []")
        case True
        from "1.prems" show ?thesis unfolding True by simp
      next
        case False
        with rsp have "isspace (hd ?r)" by blast
        with False show ?thesis by (simp only: hd_append2 simp_thms)
      qed
    qed
    also have "\<dots> = ?w # (split_ws ?r @ split_ws v)"
      using "1.IH" [OF False "1.prems"] by simp
    also have "\<dots> = split_ws u @ split_ws v"
      using False by (subst (2) split_ws.simps) simp
    finally show ?thesis .
  qed
qed

lemma split_ws_trailing: "\<forall>ch \<in> set suf. isspace ch \<Longrightarrow> split_ws (s @ suf) = split_ws s"
proof (cases suf)
  case Nil
  then show ?thesis by simp
next
  case (Cons c rest)
  assume "\<forall>ch \<in> set suf. isspace ch"
  with Cons have "isspace c" and "split_ws rest = []"
    by (auto simp: split_ws_Nil_iff)
  with Cons show ?thesis by (simp add: split_ws_append_space)
qed

lemma strip_by_decomp:
  "\<exists>pre suf. s = pre @ strip_by P s @ suf \<and> (\<forall>c \<in> set pre. P c) \<and> (\<forall>c \<in> set suf. P c)"
proof -
  let ?t = "dropWhile P s"
  have "s = takeWhile P s @ ?t" by simp
  moreover have "rev ?t = takeWhile P (rev ?t) @ dropWhile P (rev ?t)" by simp
  then have "rev (rev ?t) = rev (takeWhile P (rev ?t) @ dropWhile P (rev ?t))"
    by (rule arg_cong)
  then have "?t = strip_by P s @ rev (takeWhile P (rev ?t))"
    unfolding strip_by_def by (simp only: rev_append rev_rev_ident)
  ultimately have "s = takeWhile P s @ strip_by P s @ rev (takeWhile P (rev ?t))"
    by simp
  moreover have "\<forall>c \<in> set (takeWhile P s). P c" by (auto dest: set_takeWhileD)
  moreover have "\<forall>c \<in> set (rev (takeWhile P (rev ?t))). P c" by (auto dest: set_takeWhileD)
  ultimately show ?thesis by blast
qed

lemma split_ws_strip: "split_ws (strip s) = split_ws s"
proof -
  obtain pre suf where "s = pre @ strip s @ suf"
    "\<forall>c \<in> set pre. isspace c" "\<forall>c \<in> set suf. isspace c"
    using strip_by_decomp [of s isspace] unfolding strip_def by blast
  then have "split_ws s = split_ws (strip s @ suf)" and "split_ws (strip s @ suf) = split_ws (strip s)"
    using split_ws_leading [of pre "strip s @ suf"] split_ws_trailing [of suf "strip s"]
    by simp_all
  then show ?thesis by simp
qed

lemma split_ws_words:
  "w \<in> set (split_ws s) \<Longrightarrow> w \<noteq> [] \<and> (\<forall>ch \<in> set w. \<not> isspace ch)"
proof (induction s rule: split_ws.induct)
  case (1 s)
  let ?t = "dropWhile isspace s"
  show ?case
  proof (cases "?t = []")
    case True
    with "1.prems" show ?thesis by (subst (asm) split_ws.simps) simp
  next
    case False
    from False have "\<not> isspace (hd ?t)" by (rule hd_dropWhile)
    with False have wne: "takeWhile (\<lambda>c. \<not> isspace c) ?t \<noteq> []" by (cases ?t) auto
    from False have "split_ws s = takeWhile (\<lambda>c. \<not> isspace c) ?t
        # split_ws (dropWhile (\<lambda>c. \<not> isspace c) ?t)"
      by (subst split_ws.simps) (simp only: if_False)
    with "1.prems"
    have "w = takeWhile (\<lambda>c. \<not> isspace c) ?t
        \<or> w \<in> set (split_ws (dropWhile (\<lambda>c. \<not> isspace c) ?t))"
      by (simp only: set_simps insert_iff)
    then show ?thesis
    proof
      assume w: "w = takeWhile (\<lambda>c. \<not> isspace c) ?t"
      have "\<forall>ch \<in> set (takeWhile (\<lambda>c. \<not> isspace c) ?t). \<not> isspace ch"
        by (blast dest: set_takeWhileD)
      with wne show ?thesis unfolding w by (rule conjI)
    next
      assume "w \<in> set (split_ws (dropWhile (\<lambda>c. \<not> isspace c) ?t))"
      then show ?thesis by (rule "1.IH" [OF False])
    qed
  qed
qed

lemma split_ws_join:
  "\<forall>w \<in> set ws. w \<noteq> [] \<and> (\<forall>ch \<in> set w. \<not> isspace ch) \<Longrightarrow> split_ws (join '' '' ws) = ws"
proof (induction "'' ''" ws rule: join.induct)
  case 1
  then show ?case by (simp add: split_ws_Nil_iff)
next
  case (2 w)
  then show ?case using split_ws_word [of w "[]"] by (simp add: split_ws_Nil_iff)
next
  case (3 w v ws)
  have sp: "isspace (CHR '' '')" by (simp add: isspace_def ord_def)
  from 3 have "split_ws w = [w]" using split_ws_word [of w "[]"] by (simp add: split_ws_Nil_iff)
  with 3 sp show ?case by (simp add: split_ws_append_space)
qed

lemma split_ws_limit_length:
  "split_ws (limit_length s) = take 18 (split_ws s)"
proof (cases "length (split_ws s) > 18")
  case True
  have "\<forall>w \<in> set (take 18 (split_ws s)). w \<noteq> [] \<and> (\<forall>ch \<in> set w. \<not> isspace ch)"
    by (auto dest!: in_set_takeD split_ws_words)
  with True show ?thesis by (simp add: limit_length_def Let_def split_ws_join)
next
  case False
  then show ?thesis by (simp add: limit_length_def Let_def)
qed

subsection \<open>Stripping\<close>

lemma strip_by_id:
  assumes "s = [] \<or> (\<not> P (hd s) \<and> \<not> P (last s))"
  shows "strip_by P s = s"
proof (cases "s = []")
  case True
  then show ?thesis by (simp add: strip_by_def)
next
  case False
  with assms have h: "\<not> P (hd s)" and l: "\<not> P (last s)" by simp_all
  from False h have d1: "dropWhile P s = s" by (cases s) simp_all
  from False l have "\<not> P (hd (rev s))" by (simp add: hd_rev)
  with False have "dropWhile P (rev s) = rev s" by (cases "rev s") simp_all
  with d1 show ?thesis by (simp add: strip_by_def)
qed


lemma strip_by_ends:
  assumes "strip_by P s \<noteq> []"
  shows "\<not> P (hd (strip_by P s))" and "\<not> P (last (strip_by P s))"
proof -
  obtain pre suf where d: "s = pre @ strip_by P s @ suf"
    "\<forall>c \<in> set pre. P c" "\<forall>c \<in> set suf. P c"
    using strip_by_decomp [of s P] by blast
  let ?m = "strip_by P s"
  let ?u = "dropWhile P (rev (dropWhile P s))"
  from assms have une: "?u \<noteq> []" by (simp add: strip_by_def)
  then have "\<not> P (hd ?u)" by (rule hd_dropWhile)
  with une show "\<not> P (last ?m)" by (simp add: strip_by_def last_rev)
  let ?t = "dropWhile P s"
  from une have tne: "?t \<noteq> []" by (auto dest: set_dropWhileD)
  then have ht: "\<not> P (hd ?t)" by (rule hd_dropWhile)
  have "rev ?t = takeWhile P (rev ?t) @ ?u" by simp
  then have "rev (rev ?t) = rev (takeWhile P (rev ?t) @ ?u)" by (rule arg_cong)
  then have "?t = ?m @ rev (takeWhile P (rev ?t))"
    unfolding strip_by_def by (simp only: rev_append rev_rev_ident)
  with assms have "hd ?t = hd ?m" by (metis hd_append2)
  with ht show "\<not> P (hd ?m)" by simp
qed

lemma stripped_strip: "stripped (strip s)"
  using strip_by_ends [of isspace s] by (auto simp: stripped_def strip_def)

lemma strip_stripped: "stripped s \<Longrightarrow> strip s = s"
  unfolding stripped_def strip_def by (rule strip_by_id)



section \<open>The acceptance heuristic: results\<close>

text \<open>
  C4, as the specification states it, fails: with \<open>word_count(original)\<close> as the divisor,
  a caption that repeats words is rejected where the source accepts it. The original
  below has eleven words, six of them distinct, and shares two with the enhancement:
  2/11 is below 0.2 and 2/6 is not.
\<close>

theorem is_valid_enhancement_spec_counterexample:
  "is_valid_enhancement ''a dog and a cat and a bird and a fish'' ''a dog''
   \<noteq> is_valid_enhancement_spec ''a dog and a cat and a bird and a fish'' ''a dog''"
  by code_simp

text \<open>
  C4 (amended): \<open>_is_valid_enhancement(original, enhanced)\<close> equals the ordered heuristic:
  (1) false if \<open>enhanced\<close> is empty after trimming; (2) true if the lowercased \<open>original\<close>
  contains a word of the people set as a substring and the lowercased \<open>enhanced\<close> contains
  a word of the vehicle set as a substring; (3) false if the overlap of the two sets of
  lowercased, whitespace-separated words, divided by the number of distinct lowercased
  words of \<open>original\<close> (at least 1), is below 0.2; (4) true otherwise.
\<close>

theorem is_valid_enhancement_ordered_heuristic:
  "is_valid_enhancement original enhanced = is_valid_enhancement_amended original enhanced"
proof (cases "strip enhanced = []")
  case True
  then show ?thesis
    by (simp add: is_valid_enhancement_def is_valid_enhancement_amended_def)
next
  case False
  then have "enhanced \<noteq> []" by (auto simp: strip_Nil_iff)
  with False show ?thesis
    by (simp add: is_valid_enhancement_def is_valid_enhancement_amended_def Let_def
          overlap_count_def distinct_word_count_def)
qed

theorem is_valid_enhancement_ordered_heuristic_witness:
  "is_valid_enhancement_amended ''a dog and a cat and a bird and a fish'' ''a dog''
   \<and> is_valid_enhancement_amended ''a crowd of people walking'' ''a car is parked on the street''
   \<and> \<not> is_valid_enhancement_amended ''a red apple on a table''
         ''completely unrelated text here now''
   \<and> \<not> is_valid_enhancement_amended ''a red apple on a table'' '' ''"
proof -
  have "is_valid_enhancement ''a dog and a cat and a bird and a fish'' ''a dog''"
    by code_simp
  moreover
  have "is_valid_enhancement ''a crowd of people walking'' ''a car is parked on the street''"
    by code_simp
  moreover
  have "\<not> is_valid_enhancement ''a red apple on a table'' ''completely unrelated text here now''"
    by code_simp
  moreover have "\<not> is_valid_enhancement ''a red apple on a table'' '' ''"
    by code_simp
  ultimately show ?thesis
    unfolding is_valid_enhancement_ordered_heuristic by (intro conjI)
qed

text \<open>
  C10: for every string \<open>c\<close> with at least one non-whitespace character,
  \<open>_is_valid_enhancement(c, c)\<close> is true: a caption validates against itself.
\<close>

theorem caption_validates_against_itself:
  assumes "\<exists>ch \<in> set c. \<not> isspace ch"
  shows "is_valid_enhancement c c"
proof -
  let ?W = "set (split_ws (lower c))"
  from assms have ne: "strip c \<noteq> []" and "c \<noteq> []"
    by (auto simp: strip_Nil_iff)
  from assms have "split_ws (lower c) \<noteq> []"
    by (simp add: split_ws_lower_Nil_iff)
  then have "card ?W > 0"
    by (simp add: card_gt_0_iff)
  define n where "n = card ?W"
  with \<open>card ?W > 0\<close> have "n > 0" by simp
  then have "\<not> real n / real (max n 1) < 0.2"
    by (simp add: max_def)
  then have "\<not> real (card (?W \<inter> ?W)) / real (max (card ?W) 1) < 0.2"
    unfolding n_def Int_absorb .
  with ne \<open>c \<noteq> []\<close> show ?thesis
    by (simp add: is_valid_enhancement_def Let_def)
qed

theorem caption_validates_against_itself_witness:
  "(\<exists>ch \<in> set ''a red apple on a table''. \<not> isspace ch)
   \<and> is_valid_enhancement ''a red apple on a table'' ''a red apple on a table''"
proof -
  have h: "\<exists>ch \<in> set ''a red apple on a table''. \<not> isspace ch" by code_simp
  from h caption_validates_against_itself [OF h] show ?thesis by (rule conjI)
qed

section \<open>The enhancer: results\<close>

lemma is_valid_enhancement_nonempty: "is_valid_enhancement original enhanced \<Longrightarrow> enhanced \<noteq> []"
  by (auto simp: is_valid_enhancement_def)

lemma accept_or_keep_nonempty: "original \<noteq> [] \<Longrightarrow> accept_or_keep original text \<noteq> []"
  by (auto simp: accept_or_keep_def Let_def dest: is_valid_enhancement_nonempty)

lemma enhance_without_vision_cases:
  "fst (enhance_without_vision w c) =
     (case text_generate w (enhancement_prompt c) of
        Inl e \<Rightarrow> Inl e | Inr text \<Rightarrow> Inr (accept_or_keep c text))"
  by (simp add: enhance_without_vision_def Let_def split: sum.splits)

lemma enhance_without_vision_nonempty:
  "c \<noteq> [] \<Longrightarrow> fst (enhance_without_vision w c) = Inr s \<Longrightarrow> s \<noteq> []"
  by (auto simp: enhance_without_vision_cases accept_or_keep_nonempty split: sum.splits)

lemma vision_failed_result:
  "fst (vision_failed w c e evs) = fst (enhance_without_vision w c)"
  "Text_generate (enhancement_prompt c) \<in> set (snd (vision_failed w c e evs))"
  by (auto simp: vision_failed_def enhance_without_vision_def Let_def
        split: prod.splits sum.splits)

lemma enhance_with_vision_nonempty:
  "c \<noteq> [] \<Longrightarrow> fst (enhance_with_vision w c q) = Inr s \<Longrightarrow> s \<noteq> []"
  by (auto simp: enhance_with_vision_def vision_failed_def Let_def accept_or_keep_nonempty
        split: sum.splits prod.splits dest: enhance_without_vision_nonempty [where w = w])

lemma fst_dispatch:
  "fst (dispatch w c p) =
     (case p of
        None \<Rightarrow> fst (enhance_without_vision w c)
      | Some q \<Rightarrow>
          if q \<noteq> [] \<and> path_exists w q then fst (enhance_with_vision w c q)
          else fst (enhance_without_vision w c))"
  by (simp add: dispatch_def split: option.splits prod.splits)

lemma dispatch_nonempty: "c \<noteq> [] \<Longrightarrow> fst (dispatch w c p) = Inr s \<Longrightarrow> s \<noteq> []"
  by (auto simp: fst_dispatch split: option.splits if_splits
        dest: enhance_without_vision_nonempty enhance_with_vision_nonempty)

lemma enhance_caption_result:
  "fst (enhance_caption self w c p) =
     Inr (if \<not> enhancement_enabled self then c
          else case fst (dispatch w c p) of Inl e \<Rightarrow> c | Inr s \<Rightarrow> s)"
  by (auto simp: enhance_caption_def split: prod.splits sum.splits)

text \<open>
  C1, as the specification states it, fails: the disabled enhancer hands an empty caption
  back as it is.
\<close>

theorem enhance_caption_empty_counterexample:
  "fst (enhance_caption \<lparr>enhancement_enabled = False\<rparr>
         \<lparr>path_exists = \<lambda>_. False, image_open = \<lambda>_. Inl (OSError ''no such file''),
          vision_generate = \<lambda>_ _. Inl (Exception ''unavailable''),
          text_generate = \<lambda>_. Inl (Exception ''unavailable'')\<rparr>
         [] None) = Inr []"
  by (simp add: enhance_caption_def)

text \<open>
  C1 (amended): for every non-empty input caption and optional image path,
  \<open>enhance_caption\<close> returns a non-empty string.
\<close>

theorem enhance_caption_nonempty:
  "c \<noteq> [] \<Longrightarrow> \<exists>s. fst (enhance_caption self w c p) = Inr s \<and> s \<noteq> []"
  by (auto simp: enhance_caption_result split: sum.splits dest: dispatch_nonempty)

theorem enhance_caption_nonempty_witness:
  "''a dog runs in a park'' \<noteq> []
   \<and> (\<exists>s. fst (enhance_caption \<lparr>enhancement_enabled = True\<rparr>
              \<lparr>path_exists = \<lambda>_. False, image_open = \<lambda>_. Inl (OSError ''no such file''),
               vision_generate = \<lambda>_ _. Inl (Exception ''unavailable''),
               text_generate = \<lambda>_. Inr []\<rparr>
              ''a dog runs in a park'' None) = Inr s \<and> s \<noteq> [])"
proof -
  have h: "''a dog runs in a park'' \<noteq> []" by simp
  from h enhance_caption_nonempty [OF h] show ?thesis by (rule conjI)
qed

lemma snd_enhance_caption_enabled:
  "enhancement_enabled self \<Longrightarrow> set (snd (dispatch w c p)) \<subseteq> set (snd (enhance_caption self w c p))"
  by (auto simp: enhance_caption_def split: prod.splits sum.splits)

lemma snd_dispatch_vision:
  "q \<noteq> [] \<Longrightarrow> path_exists w q \<Longrightarrow>
     snd (dispatch w c (Some q)) = Path_exists q # snd (enhance_with_vision w c q)"
  by (simp add: dispatch_def split: prod.splits)

lemma enhance_with_vision_fails:
  assumes "image_open w q = Inl e'
    \<or> (\<exists>img. image_open w q = Inr img \<and> vision_generate w (vision_prompt c) img = Inl e')"
  shows "fst (enhance_with_vision w c q) = fst (enhance_without_vision w c)"
    and "Text_generate (enhancement_prompt c) \<in> set (snd (enhance_with_vision w c q))"
  using assms by (auto simp: enhance_with_vision_def Let_def vision_failed_result)

text \<open>
  C2: \<open>enhance_caption\<close> never raises past its own boundary. When the text-only path is
  taken (no image path, an empty one, or one that does not exist) and the text request
  raises, the result is the original caption. When the vision path is taken and opening
  the image or the vision request raises, \<open>enhance_caption\<close> hands over to the text-only
  path: the text request is sent, and the result is what the text-only path makes of its
  answer, the original only if the text request raises as well.
\<close>

theorem enhance_caption_never_raises:
  "(\<exists>s. fst (enhance_caption self w c p) = Inr s)
   \<and> (enhancement_enabled self \<and> fst (dispatch w c p) = Inl e
        \<longrightarrow> fst (enhance_caption self w c p) = Inr c)
   \<and> (enhancement_enabled self \<and> fst (enhance_without_vision w c) = Inl e
        \<longrightarrow> fst (enhance_caption self w c None) = Inr c)
   \<and> (image_open w q = Inl e'
        \<or> (\<exists>img. image_open w q = Inr img \<and> vision_generate w (vision_prompt c) img = Inl e')
        \<longrightarrow> fst (enhance_with_vision w c q) = fst (enhance_without_vision w c)
            \<and> Text_generate (enhancement_prompt c) \<in> set (snd (enhance_with_vision w c q)))
   \<and> (enhancement_enabled self
        \<and> (p = None \<or> p = Some [] \<or> (\<exists>r. p = Some r \<and> \<not> path_exists w r))
        \<and> text_generate w (enhancement_prompt c) = Inl e
        \<longrightarrow> fst (enhance_caption self w c p) = Inr c)
   \<and> (enhancement_enabled self \<and> q \<noteq> [] \<and> path_exists w q
        \<and> (image_open w q = Inl e'
           \<or> (\<exists>img. image_open w q = Inr img
                 \<and> vision_generate w (vision_prompt c) img = Inl e'))
        \<longrightarrow> fst (enhance_caption self w c (Some q))
              = Inr (case text_generate w (enhancement_prompt c) of
                       Inl x \<Rightarrow> c
                     | Inr text \<Rightarrow> accept_or_keep c text)
            \<and> Text_generate (enhancement_prompt c)
                \<in> set (snd (enhance_caption self w c (Some q))))"
proof (intro conjI impI)
  show "\<exists>s. fst (enhance_caption self w c p) = Inr s"
    by (simp add: enhance_caption_result)
next
  assume "enhancement_enabled self \<and> fst (dispatch w c p) = Inl e"
  then show "fst (enhance_caption self w c p) = Inr c"
    by (simp add: enhance_caption_result)
next
  assume "enhancement_enabled self \<and> fst (enhance_without_vision w c) = Inl e"
  then show "fst (enhance_caption self w c None) = Inr c"
    by (simp add: enhance_caption_result fst_dispatch)
next
  assume fails: "image_open w q = Inl e'
    \<or> (\<exists>img. image_open w q = Inr img \<and> vision_generate w (vision_prompt c) img = Inl e')"
  then show "fst (enhance_with_vision w c q) = fst (enhance_without_vision w c)"
    by (rule enhance_with_vision_fails)
  from fails show "Text_generate (enhancement_prompt c) \<in> set (snd (enhance_with_vision w c q))"
    by (rule enhance_with_vision_fails)
next
  assume a: "enhancement_enabled self
    \<and> (p = None \<or> p = Some [] \<or> (\<exists>r. p = Some r \<and> \<not> path_exists w r))
    \<and> text_generate w (enhancement_prompt c) = Inl e"
  then have "fst (dispatch w c p) = fst (enhance_without_vision w c)"
    by (auto simp: fst_dispatch)
  with a show "fst (enhance_caption self w c p) = Inr c"
    by (simp add: enhance_caption_result enhance_without_vision_cases)
next
  assume a: "enhancement_enabled self \<and> q \<noteq> [] \<and> path_exists w q
    \<and> (image_open w q = Inl e'
       \<or> (\<exists>img. image_open w q = Inr img \<and> vision_generate w (vision_prompt c) img = Inl e'))"
  then have fails: "image_open w q = Inl e'
    \<or> (\<exists>img. image_open w q = Inr img \<and> vision_generate w (vision_prompt c) img = Inl e')"
    by blast
  from a have "fst (dispatch w c (Some q)) = fst (enhance_with_vision w c q)"
    by (simp add: fst_dispatch)
  also have "\<dots> = fst (enhance_without_vision w c)"
    using fails by (rule enhance_with_vision_fails)
  finally have "fst (dispatch w c (Some q)) = fst (enhance_without_vision w c)" .
  with a show "fst (enhance_caption self w c (Some q))
      = Inr (case text_generate w (enhancement_prompt c) of
               Inl x \<Rightarrow> c | Inr text \<Rightarrow> accept_or_keep c text)"
    by (simp add: enhance_caption_result enhance_without_vision_cases split: sum.splits)
  from fails have "Text_generate (enhancement_prompt c) \<in> set (snd (enhance_with_vision w c q))"
    by (rule enhance_with_vision_fails)
  with a have "Text_generate (enhancement_prompt c) \<in> set (snd (dispatch w c (Some q)))"
    by (simp add: snd_dispatch_vision)
  with a show "Text_generate (enhancement_prompt c)
      \<in> set (snd (enhance_caption self w c (Some q)))"
    using snd_enhance_caption_enabled [of self w c "Some q"] by blast
qed

theorem enhance_caption_never_raises_witness:
  "fst (enhance_caption \<lparr>enhancement_enabled = True\<rparr>
         \<lparr>path_exists = \<lambda>_. False,
          image_open = \<lambda>_. Inl (OSError ''cannot identify image file''),
          vision_generate = \<lambda>_ _. Inl (Exception ''unavailable''),
          text_generate = \<lambda>_. Inl (Exception ''quota exceeded'')\<rparr>
         ''a dog runs in a park'' (Some ''uploads/missing.png'')) = Inr ''a dog runs in a park''
   \<and> fst (enhance_caption \<lparr>enhancement_enabled = True\<rparr>
         \<lparr>path_exists = \<lambda>_. True,
          image_open = \<lambda>_. Inl (OSError ''cannot identify image file''),
          vision_generate = \<lambda>_ _. Inl (Exception ''unavailable''),
          text_generate = \<lambda>_. Inr ''A dog is running in the park''\<rparr>
         ''a dog runs in a park'' (Some ''uploads/dog.png''))
       = Inr ''a dog is running in the park''"
proof -
  let ?E = "\<lparr>enhancement_enabled = True\<rparr>"
  let ?W1 = "\<lparr>path_exists = \<lambda>_. False,
          image_open = \<lambda>_. Inl (OSError ''cannot identify image file''),
          vision_generate = \<lambda>_ _. Inl (Exception ''unavailable''),
          text_generate = \<lambda>_. Inl (Exception ''quota exceeded'')\<rparr>"
  let ?W2 = "\<lparr>path_exists = \<lambda>_. True,
          image_open = \<lambda>_. Inl (OSError ''cannot identify image file''),
          vision_generate = \<lambda>_ _. Inl (Exception ''unavailable''),
          text_generate = \<lambda>_. Inr ''A dog is running in the park''\<rparr>"
  let ?c = "''a dog runs in a park''"
  let ?p = "Some ''uploads/missing.png''"
  let ?q = "''uploads/dog.png''"
  have h1: "enhancement_enabled ?E
      \<and> (?p = None \<or> ?p = Some [] \<or> (\<exists>r. ?p = Some r \<and> \<not> path_exists ?W1 r))
      \<and> text_generate ?W1 (enhancement_prompt ?c) = Inl (Exception ''quota exceeded'')"
    by simp
  have h2: "enhancement_enabled ?E \<and> ?q \<noteq> [] \<and> path_exists ?W2 ?q
      \<and> (image_open ?W2 ?q = Inl (OSError ''cannot identify image file'')
         \<or> (\<exists>img. image_open ?W2 ?q = Inr img
               \<and> vision_generate ?W2 (vision_prompt ?c) img
                   = Inl (OSError ''cannot identify image file'')))"
    by simp
  have ev: "accept_or_keep ?c ''A dog is running in the park'' = ''a dog is running in the park''"
    by code_simp
  from h1 enhance_caption_never_raises [of ?E ?W1 ?c ?p "Exception ''quota exceeded''"]
  have a: "fst (enhance_caption ?E ?W1 ?c ?p) = Inr ?c"
    by blast
  from h2 enhance_caption_never_raises
    [of ?E ?W2 ?c None _ ?q "OSError ''cannot identify image file''"]
  have "fst (enhance_caption ?E ?W2 ?c (Some ?q))
      = Inr (case text_generate ?W2 (enhancement_prompt ?c) of
               Inl x \<Rightarrow> ?c | Inr text \<Rightarrow> accept_or_keep ?c text)"
    by blast
  then have b: "fst (enhance_caption ?E ?W2 ?c (Some ?q)) = Inr ''a dog is running in the park''"
    by (simp add: ev)
  from a b show ?thesis by (rule conjI)
qed

text \<open>
  C3: if the enhancer is disabled, \<open>enhance_caption(c)\<close> returns exactly \<open>c\<close> for every
  caption \<open>c\<close>, and does nothing to the outside: no delay, no external call.
\<close>

theorem disabled_returns_input:
  "\<not> enhancement_enabled self \<Longrightarrow> enhance_caption self w c p = (Inr c, [])"
  by (simp add: enhance_caption_def)

theorem disabled_returns_input_witness:
  "\<not> enhancement_enabled \<lparr>enhancement_enabled = False\<rparr>
   \<and> enhance_caption \<lparr>enhancement_enabled = False\<rparr>
        \<lparr>path_exists = \<lambda>_. True, image_open = \<lambda>_. Inr (Image [0]),
         vision_generate = \<lambda>_ _. Inr ''a car is parked on the street'',
         text_generate = \<lambda>_. Inr ''a car is parked on the street''\<rparr>
        ''a man is standing'' (Some ''uploads/x.png'')
      = (Inr ''a man is standing'', [])"
proof -
  have h: "\<not> enhancement_enabled \<lparr>enhancement_enabled = False\<rparr>" by simp
  show ?thesis using h disabled_returns_input [OF h] by simp
qed

section \<open>The upload handler: results\<close>

lemma cleanup_attempts_no_raise:
  "\<forall>n m. os_remove srv n filepath \<noteq> Some (Exception m)
     \<Longrightarrow> \<exists>b. cleanup_attempts srv filepath k ns = Inr b"
proof (induction ns)
  case Nil
  show ?case by auto
next
  case (Cons n ns)
  then show ?case by (auto split: option.splits exn.splits)
qed

lemma cleanup_file_with_retry_no_raise:
  "\<forall>n m. os_remove srv n filepath \<noteq> Some (Exception m)
     \<Longrightarrow> \<exists>b. cleanup_file_with_retry srv filepath = Inr b"
  unfolding cleanup_file_with_retry_def by (rule cleanup_attempts_no_raise)

lemma cleanup_file_with_retry_raises:
  "fs_exists srv 0 filepath \<Longrightarrow> os_remove srv 0 filepath = Some (Exception m)
     \<Longrightarrow> cleanup_file_with_retry srv filepath = Inl (Exception m)"
  by (simp add: cleanup_file_with_retry_def upt_rec)

text \<open>
  C9: the upload handler answers with status 400 and a JSON object with an \<open>error\<close> field
  when the request has no \<open>file\<close> field or the file name is empty. An exception raised
  while the request is handled (by reading the uploaded files, creating the staging
  directory, saving the file, the captioning call, or the clean-up of the staged file)
  becomes status 500 with the exception's message in the \<open>error\<close> field. The handler
  always answers, with status 200, 400 or 500, and every answer other than 200 is an
  \<open>error\<close> object.
\<close>

theorem upload_file_errors:
  "(files req = Inr fs \<and> map_of fs ''file'' = None
      \<longrightarrow> upload_file srv req = Some ([(''error'', JString ''No file uploaded'')], 400))
   \<and> (files req = Inr fs \<and> map_of fs ''file'' = Some f \<and> filename f = []
      \<longrightarrow> upload_file srv req = Some ([(''error'', JString ''No file selected'')], 400))
   \<and> (upload_body srv req = Inl e
      \<longrightarrow> upload_file srv req = Some ([(''error'', JString (str e))], 500))
   \<and> (files req = Inl e
      \<longrightarrow> upload_file srv req = Some ([(''error'', JString (str e))], 500))
   \<and> (files req = Inr fs \<and> map_of fs ''file'' = Some f \<and> filename f \<noteq> []
        \<and> makedirs srv ''uploads'' = Some e
      \<longrightarrow> upload_file srv req = Some ([(''error'', JString (str e))], 500))
   \<and> (files req = Inr fs \<and> map_of fs ''file'' = Some f \<and> filename f \<noteq> []
        \<and> makedirs srv ''uploads'' = None
        \<and> save srv f (os_path_join ''uploads'' (filename f)) = Some e
      \<longrightarrow> upload_file srv req = Some ([(''error'', JString (str e))], 500))
   \<and> (files req = Inr fs \<and> map_of fs ''file'' = Some f \<and> filename f \<noteq> []
        \<and> makedirs srv ''uploads'' = None
        \<and> save srv f (os_path_join ''uploads'' (filename f)) = None
        \<and> getBothCaptions srv (os_path_join ''uploads'' (filename f)) = Inl e
        \<and> (\<forall>n m. os_remove srv n (os_path_join ''uploads'' (filename f)) \<noteq> Some (Exception m))
      \<longrightarrow> upload_file srv req = Some ([(''error'', JString (str e))], 500))
   \<and> (files req = Inr fs \<and> map_of fs ''file'' = Some f \<and> filename f \<noteq> []
        \<and> makedirs srv ''uploads'' = None
        \<and> save srv f (os_path_join ''uploads'' (filename f)) = None
        \<and> fs_exists srv 0 (os_path_join ''uploads'' (filename f))
        \<and> os_remove srv 0 (os_path_join ''uploads'' (filename f)) = Some (Exception m)
      \<longrightarrow> upload_file srv req = Some ([(''error'', JString m)], 500))
   \<and> (\<exists>body status. upload_file srv req = Some (body, status) \<and> status \<in> {200, 400, 500}
        \<and> (status \<noteq> 200 \<longrightarrow> (\<exists>msg. body = [(''error'', JString msg)])))"
proof (intro conjI impI)
  show "\<exists>body status. upload_file srv req = Some (body, status) \<and> status \<in> {200, 400, 500}
        \<and> (status \<noteq> 200 \<longrightarrow> (\<exists>msg. body = [(''error'', JString msg)]))"
    by (simp add: upload_file_def upload_body_def error_response_def Let_def
          split: sum.splits option.splits prod.splits)
next
  assume a: "files req = Inr fs \<and> map_of fs ''file'' = Some f \<and> filename f \<noteq> []
        \<and> makedirs srv ''uploads'' = None
        \<and> save srv f (os_path_join ''uploads'' (filename f)) = None
        \<and> getBothCaptions srv (os_path_join ''uploads'' (filename f)) = Inl e
        \<and> (\<forall>n m. os_remove srv n (os_path_join ''uploads'' (filename f)) \<noteq> Some (Exception m))"
  then obtain b where "cleanup_file_with_retry srv (os_path_join ''uploads'' (filename f)) = Inr b"
    using cleanup_file_with_retry_no_raise by blast
  with a show "upload_file srv req = Some ([(''error'', JString (str e))], 500)"
    by (simp add: upload_file_def upload_body_def error_response_def Let_def)
next
  assume a: "files req = Inr fs \<and> map_of fs ''file'' = Some f \<and> filename f \<noteq> []
        \<and> makedirs srv ''uploads'' = None
        \<and> save srv f (os_path_join ''uploads'' (filename f)) = None
        \<and> fs_exists srv 0 (os_path_join ''uploads'' (filename f))
        \<and> os_remove srv 0 (os_path_join ''uploads'' (filename f)) = Some (Exception m)"
  then have "cleanup_file_with_retry srv (os_path_join ''uploads'' (filename f)) = Inl (Exception m)"
    by (simp add: cleanup_file_with_retry_raises)
  with a show "upload_file srv req = Some ([(''error'', JString m)], 500)"
    by (simp add: upload_file_def upload_body_def error_response_def Let_def)
qed (simp_all add: upload_file_def upload_body_def error_response_def Let_def)

theorem upload_file_errors_witness:
  "upload_file
     \<lparr>makedirs = \<lambda>_. None, save = \<lambda>_ _. None,
      getBothCaptions = \<lambda>_. Inl (Exception ''model not loaded''),
      fs_exists = \<lambda>_ _. True,
      os_remove = \<lambda>n _. if n < 2 then Some (OSError ''file is locked'') else None\<rparr>
     \<lparr>files = Inr []\<rparr> = Some ([(''error'', JString ''No file uploaded'')], 400)
   \<and> upload_file
     \<lparr>makedirs = \<lambda>_. None, save = \<lambda>_ _. None,
      getBothCaptions = \<lambda>_. Inl (Exception ''model not loaded''),
      fs_exists = \<lambda>_ _. True,
      os_remove = \<lambda>n _. if n < 2 then Some (OSError ''file is locked'') else None\<rparr>
     \<lparr>files = Inr [(''file'', \<lparr>filename = []\<rparr>)]\<rparr>
       = Some ([(''error'', JString ''No file selected'')], 400)
   \<and> upload_file
     \<lparr>makedirs = \<lambda>_. None, save = \<lambda>_ _. None,
      getBothCaptions = \<lambda>_. Inl (Exception ''model not loaded''),
      fs_exists = \<lambda>_ _. True,
      os_remove = \<lambda>n _. if n < 2 then Some (OSError ''file is locked'') else None\<rparr>
     \<lparr>files = Inr [(''file'', \<lparr>filename = ''dog.png''\<rparr>)]\<rparr>
       = Some ([(''error'', JString ''model not loaded'')], 500)
   \<and> upload_file
     \<lparr>makedirs = \<lambda>_. None, save = \<lambda>_ _. None,
      getBothCaptions = \<lambda>_. Inl (Exception ''model not loaded''),
      fs_exists = \<lambda>_ _. True,
      os_remove = \<lambda>n _. if n < 2 then Some (OSError ''file is locked'') else None\<rparr>
     \<lparr>files = Inl (Exception ''request entity too large'')\<rparr>
       = Some ([(''error'', JString ''request entity too large'')], 500)
   \<and> upload_file
     \<lparr>makedirs = \<lambda>_. None, save = \<lambda>_ _. Some (OSError ''no space left on device''),
      getBothCaptions = \<lambda>_. Inr (''a dog'', ''a dog is running''),
      fs_exists = \<lambda>_ _. True, os_remove = \<lambda>_ _. None\<rparr>
     \<lparr>files = Inr [(''file'', \<lparr>filename = ''dog.png''\<rparr>)]\<rparr>
       = Some ([(''error'', JString ''no space left on device'')], 500)"
proof -
  let ?srv = "\<lparr>makedirs = \<lambda>_. None, save = \<lambda>_ _. None,
      getBothCaptions = \<lambda>_. Inl (Exception ''model not loaded''),
      fs_exists = \<lambda>_ _. True,
      os_remove = \<lambda>n _. if n < 2 then Some (OSError ''file is locked'') else None\<rparr>"
  let ?full = "\<lparr>makedirs = \<lambda>_. None, save = \<lambda>_ _. Some (OSError ''no space left on device''),
      getBothCaptions = \<lambda>_. Inr (''a dog'', ''a dog is running''),
      fs_exists = \<lambda>_ _. True, os_remove = \<lambda>_ _. None\<rparr>"
  let ?noname = "\<lparr>filename = []\<rparr>"
  let ?dog = "\<lparr>filename = ''dog.png''\<rparr>"
  let ?ra = "\<lparr>files = Inr []\<rparr>"
  let ?rb = "\<lparr>files = Inr [(''file'', ?noname)]\<rparr>"
  let ?rc = "\<lparr>files = Inr [(''file'', ?dog)]\<rparr>"
  let ?rd = "\<lparr>files = Inl (Exception ''request entity too large'')\<rparr>"
  have h1: "files ?ra = Inr [] \<and> map_of [] ''file'' = (None :: file_storage option)"
    by simp
  have h2: "files ?rb = Inr [(''file'', ?noname)]
      \<and> map_of [(''file'', ?noname)] ''file'' = Some ?noname \<and> filename ?noname = []"
    by simp
  have h3: "files ?rc = Inr [(''file'', ?dog)]
      \<and> map_of [(''file'', ?dog)] ''file'' = Some ?dog \<and> filename ?dog \<noteq> []
      \<and> makedirs ?srv ''uploads'' = None
      \<and> save ?srv ?dog (os_path_join ''uploads'' (filename ?dog)) = None
      \<and> getBothCaptions ?srv (os_path_join ''uploads'' (filename ?dog))
          = Inl (Exception ''model not loaded'')
      \<and> (\<forall>n m. os_remove ?srv n (os_path_join ''uploads'' (filename ?dog)) \<noteq> Some (Exception m))"
    by simp
  have h4: "files ?rd = Inl (Exception ''request entity too large'')"
    by simp
  have h5: "files ?rc = Inr [(''file'', ?dog)]
      \<and> map_of [(''file'', ?dog)] ''file'' = Some ?dog \<and> filename ?dog \<noteq> []
      \<and> makedirs ?full ''uploads'' = None
      \<and> save ?full ?dog (os_path_join ''uploads'' (filename ?dog))
          = Some (OSError ''no space left on device'')"
    by simp
  from h1 upload_file_errors [where req = ?ra and fs = "[]" and srv = ?srv]
  have a: "upload_file ?srv ?ra = Some ([(''error'', JString ''No file uploaded'')], 400)"
    by blast
  from h2 upload_file_errors [where req = ?rb and fs = "[(''file'', ?noname)]" and srv = ?srv and f = ?noname]
  have b: "upload_file ?srv ?rb = Some ([(''error'', JString ''No file selected'')], 400)"
    by blast
  from h3 upload_file_errors [where req = ?rc and fs = "[(''file'', ?dog)]" and srv = ?srv
      and f = ?dog and e = "Exception ''model not loaded''"]
  have "upload_file ?srv ?rc
      = Some ([(''error'', JString (str (Exception ''model not loaded'')))], 500)"
    by blast
  then have c: "upload_file ?srv ?rc = Some ([(''error'', JString ''model not loaded'')], 500)"
    by simp
  from h4 upload_file_errors [where req = ?rd and srv = ?srv
      and e = "Exception ''request entity too large''"]
  have "upload_file ?srv ?rd
      = Some ([(''error'', JString (str (Exception ''request entity too large'')))], 500)"
    by blast
  then have d: "upload_file ?srv ?rd
      = Some ([(''error'', JString ''request entity too large'')], 500)"
    by simp
  from h5 upload_file_errors [where req = ?rc and fs = "[(''file'', ?dog)]" and srv = ?full
      and f = ?dog and e = "OSError ''no space left on device''"]
  have "upload_file ?full ?rc
      = Some ([(''error'', JString (str (OSError ''no space left on device'')))], 500)"
    by blast
  then have e: "upload_file ?full ?rc
      = Some ([(''error'', JString ''no space left on device'')], 500)"
    by simp
  from a b c d e show ?thesis by (intro conjI)
qed

section \<open>The clean-up pipeline: results\<close>

text \<open>
  C8, as the specification states it, fails: the result is not all in lower case.
\<close>

theorem cleanup_caption_example_counterexample:
  "cleanup_caption ''Caption: A Man Is Walking.'' \<noteq> ''a man is walking.''"
  by code_simp

text \<open>
  C8 (amended): \<open>_cleanup_caption("Caption: A Man Is Walking.")\<close> strips the prefix
  ``caption:'' and, the first character of the rest being upper case and the word count
  at most 15, lowercases the first character only: it returns ``a Man Is Walking.''.
\<close>

theorem cleanup_caption_example:
  "cleanup_caption ''Caption: A Man Is Walking.'' = ''a Man Is Walking.''"
  by code_simp

text \<open>
  C6: for every string \<open>t\<close>, the result of \<open>_cleanup_caption(t)\<close> has at most 18
  whitespace-separated words.
\<close>

theorem cleanup_caption_at_most_18_words: "length (split_ws (cleanup_caption t)) \<le> 18"
proof (cases "t = []")
  case True
  have "split_ws [] = []" by (simp add: split_ws_Nil_iff)
  with True show ?thesis by (simp add: cleanup_caption_def)
next
  case False
  then show ?thesis
    by (simp add: cleanup_caption_def Let_def split_ws_strip split_ws_limit_length)
qed




subsection \<open>The pipeline on its own results\<close>

lemma not_isupper_lower_char: "\<not> isupper (lower_char c)"
  by (auto simp: lower_char_def isupper_def ord_def Let_def)

lemma stripped_remove_prefix:
  "stripped c \<Longrightarrow> stripped (remove_prefix ps cl c)"
  by (induction ps) (simp_all add: stripped_strip)

lemma stripped_remove_explanation:
  "stripped c \<Longrightarrow> stripped (remove_explanation ms c)"
  by (induction ms) (simp_all add: stripped_strip)

lemma stripped_remove_quotes: "stripped (remove_quotes t)"
  by (simp add: remove_quotes_def stripped_strip)

lemma lowercase_start_Cons:
  assumes "c \<noteq> []" "isupper (hd c)" "length (split_ws c) \<le> 15"
  shows "lowercase_start c = lower_char (hd c) # tl c"
proof (cases c)
  case Nil
  with assms(1) show ?thesis by simp
next
  case (Cons x xs)
  with assms show ?thesis
    by (cases xs) (simp_all add: lowercase_start_def lower_def)
qed

lemma lowercase_start_done: "start_done (lowercase_start c)"
proof (cases "c \<noteq> [] \<and> isupper (hd c) \<and> length (split_ws c) \<le> 15")
  case True
  then have "lowercase_start c = lower_char (hd c) # tl c"
    by (simp add: lowercase_start_Cons)
  then show ?thesis by (simp add: start_done_def not_isupper_lower_char)
next
  case False
  then have "lowercase_start c = c" by (auto simp: lowercase_start_def)
  with False show ?thesis by (simp add: start_done_def)
qed

lemma stripped_lowercase_start:
  assumes "stripped c"
  shows "stripped (lowercase_start c)"
proof (cases "c \<noteq> [] \<and> isupper (hd c) \<and> length (split_ws c) \<le> 15")
  case True
  then have eq: "lowercase_start c = lower_char (hd c) # tl c"
    by (simp add: lowercase_start_Cons)
  from True assms have h: "\<not> isspace (hd c)" and l: "\<not> isspace (last c)"
    by (simp_all add: stripped_def)
  from True obtain x xs where c: "c = x # xs" by (cases c) auto
  show ?thesis
    unfolding eq using c h l by (cases "xs = []") (simp_all add: stripped_def)
next
  case False
  then have "lowercase_start c = c" by (auto simp: lowercase_start_def)
  with assms show ?thesis by simp
qed

lemma limit_length_done:
  assumes "stripped c" "start_done c"
  shows "start_done (strip (limit_length c))"
proof (cases "length (split_ws c) > 18")
  case True
  then have "length (split_ws (strip (limit_length c))) = 18"
    by (simp add: split_ws_strip split_ws_limit_length)
  then show ?thesis by (simp add: start_done_def)
next
  case False
  then have "limit_length c = c" by (simp add: limit_length_def Let_def)
  with assms show ?thesis by (simp add: strip_stripped)
qed

lemma cleanup_caption_shape:
  "stripped (cleanup_caption t)" "start_done (cleanup_caption t)"
  "length (split_ws (cleanup_caption t)) \<le> 18"
proof -
  have nil: "split_ws [] = []" by (simp add: split_ws_Nil_iff)
  show "stripped (cleanup_caption t)"
    by (simp add: cleanup_caption_def Let_def stripped_strip) (simp add: stripped_def)
  show "start_done (cleanup_caption t)"
  proof (cases "t = []")
    case True
    then show ?thesis by (simp add: cleanup_caption_def start_done_def)
  next
    case False
    let ?c1 = "remove_quotes t"
    let ?c3 = "remove_explanation explanation_markers
                 (remove_prefix prefixes_to_remove (lower ?c1) ?c1)"
    have "stripped ?c3"
      by (intro stripped_remove_explanation stripped_remove_prefix stripped_remove_quotes)
    then have "stripped (lowercase_start ?c3)" by (rule stripped_lowercase_start)
    then have "start_done (strip (limit_length (lowercase_start ?c3)))"
      using lowercase_start_done by (rule limit_length_done)
    with False show ?thesis by (simp add: cleanup_caption_def Let_def)
  qed
  show "length (split_ws (cleanup_caption t)) \<le> 18"
  proof (cases "t = []")
    case True
    with nil show ?thesis by (simp add: cleanup_caption_def)
  next
    case False
    then show ?thesis
      by (simp add: cleanup_caption_def Let_def split_ws_strip split_ws_limit_length)
  qed
qed

lemma remove_prefix_none:
  "\<forall>p \<in> set ps. \<not> startswith cl p \<Longrightarrow> remove_prefix ps cl c = c"
  by (induction ps) simp_all

lemma remove_explanation_none:
  "\<forall>m \<in> set ms. \<not> contains m c \<Longrightarrow> remove_explanation ms c = c"
  by (induction ms) simp_all

lemma cleanup_caption_fixed:
  assumes "stripped r" "start_done r" "length (split_ws r) \<le> 18" "settled r"
  shows "cleanup_caption r = r"
proof (cases "r = []")
  case True
  then show ?thesis by (simp add: cleanup_caption_def)
next
  case False
  from assms(1) have s: "strip r = r" by (rule strip_stripped)
  from assms(4) False have q: "hd r \<noteq> CHR 0x22" "last r \<noteq> CHR 0x22"
      "hd r \<noteq> CHR 0x27" "last r \<noteq> CHR 0x27"
    by (simp_all add: settled_def)
  have d: "strip_chars [CHR 0x22] r = r"
    unfolding strip_chars_def using q by (intro strip_by_id) simp
  have a: "strip_chars [CHR 0x27] r = r"
    unfolding strip_chars_def using q by (intro strip_by_id) simp
  have c1: "remove_quotes r = r"
    by (simp only: remove_quotes_def s d a)
  from assms(4) have c2: "remove_prefix prefixes_to_remove (lower r) r = r"
    by (intro remove_prefix_none) (simp add: settled_def)
  from assms(4) have c3: "remove_explanation explanation_markers r = r"
    by (intro remove_explanation_none) (simp add: settled_def)
  from assms(2) have c4: "lowercase_start r = r"
    by (auto simp: lowercase_start_def start_done_def)
  from assms(3) have c5: "limit_length r = r"
    by (simp add: limit_length_def Let_def)
  from False show ?thesis
    by (simp add: cleanup_caption_def Let_def c1 c2 c3 c4 c5 s)
qed

subsection \<open>No step makes a caption longer\<close>

lemma length_strip_by: "length (strip_by P s) \<le> length s"
proof -
  obtain pre suf where "s = pre @ strip_by P s @ suf"
    using strip_by_decomp [of s P] by blast
  then have "length s = length pre + length (strip_by P s) + length suf"
    by (metis length_append add.assoc)
  then show ?thesis by simp
qed

lemma strip_by_shorter:
  assumes "s \<noteq> []" "P (hd s) \<or> P (last s)"
  shows "length (strip_by P s) < length s"
proof -
  obtain pre suf where d: "s = pre @ strip_by P s @ suf"
    using strip_by_decomp [of s P] by blast
  then have len: "length s = length pre + length (strip_by P s) + length suf"
    by (metis length_append add.assoc)
  have "strip_by P s \<noteq> s"
  proof
    assume eq: "strip_by P s = s"
    with assms(1) have "strip_by P s \<noteq> []" by simp
    then have "\<not> P (hd (strip_by P s))" "\<not> P (last (strip_by P s))"
      by (rule strip_by_ends)+
    with eq assms(2) show False by simp
  qed
  with d have "pre \<noteq> [] \<or> suf \<noteq> []" by auto
  with len show ?thesis by auto
qed

lemma length_strip: "length (strip s) \<le> length s"
  unfolding strip_def by (rule length_strip_by)

lemma length_remove_quotes: "length (remove_quotes s) \<le> length s"
proof -
  have "length (remove_quotes s) \<le> length (strip_chars [CHR 0x27] (strip_chars [CHR 0x22] (strip s)))"
    unfolding remove_quotes_def by (rule length_strip)
  also have "\<dots> \<le> length (strip_chars [CHR 0x22] (strip s))"
    unfolding strip_chars_def by (rule length_strip_by)
  also have "\<dots> \<le> length (strip s)"
    unfolding strip_chars_def by (rule length_strip_by)
  also have "\<dots> \<le> length s" by (rule length_strip)
  finally show ?thesis .
qed

lemma remove_quotes_shorter:
  assumes "stripped r" "r \<noteq> []"
    and "hd r \<in> set [CHR 0x22, CHR 0x27] \<or> last r \<in> set [CHR 0x22, CHR 0x27]"
  shows "length (remove_quotes r) < length r"
proof -
  from assms(1) have s: "strip r = r" by (rule strip_stripped)
  let ?d = "strip_chars [CHR 0x22] r"
  have ld: "length ?d \<le> length r"
    unfolding strip_chars_def by (rule length_strip_by)
  have la: "length (strip_chars [CHR 0x27] ?d) \<le> length ?d"
    unfolding strip_chars_def by (rule length_strip_by)
  have le: "length (remove_quotes r) \<le> length (strip_chars [CHR 0x27] ?d)"
    unfolding remove_quotes_def s by (rule length_strip)
  show ?thesis
  proof (cases "hd r = CHR 0x22 \<or> last r = CHR 0x22")
    case True
    with assms(2) have "length ?d < length r"
      unfolding strip_chars_def by (intro strip_by_shorter) auto
    with la le show ?thesis by simp
  next
    case False
    then have "?d = r"
      unfolding strip_chars_def by (intro strip_by_id) simp
    moreover from False assms(3) have "hd r = CHR 0x27 \<or> last r = CHR 0x27" by auto
    with assms(2) have "length (strip_chars [CHR 0x27] r) < length r"
      unfolding strip_chars_def by (intro strip_by_shorter) auto
    ultimately show ?thesis using le by simp
  qed
qed

lemma length_remove_prefix: "length (remove_prefix ps cl c) \<le> length c"
proof (induction ps)
  case Nil
  show ?case by simp
next
  case (Cons p ps)
  have "length (strip (drop (length p) c)) \<le> length c"
    using length_strip [of "drop (length p) c"] by simp
  with Cons show ?case by simp
qed

lemma remove_prefix_shorter:
  assumes "\<forall>p \<in> set ps. p \<noteq> []" "\<exists>p \<in> set ps. startswith (lower c) p"
  shows "length (remove_prefix ps (lower c) c) < length c"
  using assms
proof (induction ps)
  case Nil
  then show ?case by simp
next
  case (Cons p ps)
  show ?case
  proof (cases "startswith (lower c) p")
    case True
    from Cons.prems(1) have "p \<noteq> []" by simp
    with True have "c \<noteq> []" by (auto simp: startswith_def lower_def)
    with \<open>p \<noteq> []\<close> have "length (drop (length p) c) < length c" by simp
    with True show ?thesis
      using length_strip [of "drop (length p) c"] by simp
  next
    case False
    with Cons show ?thesis by simp
  qed
qed

lemma length_split_first: "length (split_first m s) \<le> length s"
  by (induction s) simp_all

lemma split_first_shorter: "m \<noteq> [] \<Longrightarrow> contains m s \<Longrightarrow> length (split_first m s) < length s"
proof (induction s)
  case Nil
  then show ?case by simp
next
  case (Cons c cs)
  then show ?case by (cases "startswith (c # cs) m") simp_all
qed

lemma length_remove_explanation: "length (remove_explanation ms c) \<le> length c"
proof (induction ms)
  case Nil
  show ?case by simp
next
  case (Cons m ms)
  have "length (strip (split_first m c)) \<le> length c"
    using length_strip [of "split_first m c"] length_split_first [of m c] by simp
  with Cons show ?case by simp
qed

lemma remove_explanation_shorter:
  assumes "\<forall>m \<in> set ms. m \<noteq> []" "\<exists>m \<in> set ms. contains m c"
  shows "length (remove_explanation ms c) < length c"
  using assms
proof (induction ms)
  case Nil
  then show ?case by simp
next
  case (Cons m ms)
  show ?case
  proof (cases "contains m c")
    case True
    from Cons.prems(1) have "m \<noteq> []" by simp
    then have "length (split_first m c) < length c"
      using True by (rule split_first_shorter)
    with True show ?thesis
      using length_strip [of "split_first m c"] by simp
  next
    case False
    with Cons show ?thesis by simp
  qed
qed

lemma length_lowercase_start: "length (lowercase_start c) = length c"
proof (cases "c \<noteq> [] \<and> isupper (hd c) \<and> length (split_ws c) \<le> 15")
  case True
  then have "lowercase_start c = lower_char (hd c) # tl c"
    by (simp add: lowercase_start_Cons)
  with True show ?thesis by simp
next
  case False
  then have "lowercase_start c = c" by (auto simp: lowercase_start_def)
  then show ?thesis by simp
qed

lemma length_join_take: "length (join sep (take n ws)) \<le> length (join sep ws)"
proof (induction sep ws arbitrary: n rule: join.induct)
  case (1 sep)
  show ?case by simp
next
  case (2 sep w)
  show ?case by (cases n) simp_all
next
  case (3 sep w v ws)
  show ?case
  proof (cases n)
    case 0
    then show ?thesis by simp
  next
    case (Suc k)
    show ?thesis
    proof (cases k)
      case 0
      with Suc show ?thesis by simp
    next
      case (Suc j)
      with \<open>n = Suc k\<close> have "join sep (take n (w # v # ws)) = w @ sep @ join sep (v # take j ws)"
        by simp
      moreover have "v # take j ws = take k (v # ws)" using Suc by simp
      ultimately have "join sep (take n (w # v # ws)) = w @ sep @ join sep (take k (v # ws))"
        by (simp only:)
      with "3.IH" [of k] show ?thesis by simp
    qed
  qed
qed

lemma length_join_split_ws:
  "length (join '' '' (split_ws s)) + length (takeWhile isspace s) \<le> length s"
proof (induction s rule: split_ws.induct)
  case (1 s)
  let ?t = "dropWhile isspace s"
  let ?w = "takeWhile (\<lambda>c. \<not> isspace c) ?t"
  let ?r = "dropWhile (\<lambda>c. \<not> isspace c) ?t"
  have ls: "length s = length (takeWhile isspace s) + length ?t"
    by (metis length_append takeWhile_dropWhile_id)
  have lt: "length ?t = length ?w + length ?r"
    by (metis length_append takeWhile_dropWhile_id)
  show ?case
  proof (cases "?t = []")
    case True
    then have "split_ws s = []" by (simp add: split_ws_Nil_iff)
    with ls show ?thesis by simp
  next
    case False
    then have sw: "split_ws s = ?w # split_ws ?r"
      by (subst split_ws.simps) (simp only: if_False)
    show ?thesis
    proof (cases "split_ws ?r")
      case Nil
      with sw ls lt show ?thesis by simp
    next
      case (Cons v vs)
      then have "split_ws ?r \<noteq> []" by simp
      moreover have "split_ws [] = []" by (simp add: split_ws_Nil_iff)
      ultimately have rne: "?r \<noteq> []" by metis
      then have "isspace (hd ?r)"
        using hd_dropWhile [of "\<lambda>c. \<not> isspace c" ?t] by blast
      with rne have "takeWhile isspace ?r \<noteq> []" by (cases ?r) simp_all
      then have one: "1 \<le> length (takeWhile isspace ?r)"
        by (cases "takeWhile isspace ?r") simp_all
      from "1.IH" [OF False]
      have ih: "length (join '' '' (split_ws ?r)) + length (takeWhile isspace ?r) \<le> length ?r" .
      from sw Cons have "length (join '' '' (split_ws s))
          = length ?w + 1 + length (join '' '' (split_ws ?r))"
        by simp
      with ih one ls lt show ?thesis by linarith
    qed
  qed
qed

lemma length_limit_length: "length (limit_length c) \<le> length c"
proof (cases "length (split_ws c) > 18")
  case True
  then have "limit_length c = join '' '' (take 18 (split_ws c))"
    by (simp add: limit_length_def Let_def)
  also have "length \<dots> \<le> length (join '' '' (split_ws c))"
    by (rule length_join_take)
  also have "\<dots> \<le> length c"
    using length_join_split_ws [of c] by simp
  finally show ?thesis .
next
  case False
  then show ?thesis by (simp add: limit_length_def Let_def)
qed

lemma settled_Nil: "settled []"
  by (simp add: settled_def prefixes_to_remove_def explanation_markers_def
        startswith_def lower_def)

lemma cleanup_caption_shorter:
  assumes "stripped r" "\<not> settled r"
  shows "length (cleanup_caption r) < length r"
proof -
  from assms(2) settled_Nil have ne: "r \<noteq> []" by auto
  let ?c1 = "remove_quotes r"
  let ?c2 = "remove_prefix prefixes_to_remove (lower ?c1) ?c1"
  let ?c3 = "remove_explanation explanation_markers ?c2"
  have pne: "\<forall>p \<in> set prefixes_to_remove. p \<noteq> []"
    by (simp add: prefixes_to_remove_def)
  have mne: "\<forall>m \<in> set explanation_markers. m \<noteq> []"
    by (simp add: explanation_markers_def)
  have "length (cleanup_caption r) = length (strip (limit_length (lowercase_start ?c3)))"
    using ne by (simp add: cleanup_caption_def Let_def)
  also have "\<dots> \<le> length (limit_length (lowercase_start ?c3))" by (rule length_strip)
  also have "\<dots> \<le> length (lowercase_start ?c3)" by (rule length_limit_length)
  also have "\<dots> = length ?c3" by (rule length_lowercase_start)
  finally have l3: "length (cleanup_caption r) \<le> length ?c3" .
  have l32: "length ?c3 \<le> length ?c2" by (rule length_remove_explanation)
  have l21: "length ?c2 \<le> length ?c1" by (rule length_remove_prefix)
  have l10: "length ?c1 \<le> length r" by (rule length_remove_quotes)
  show ?thesis
  proof (cases "hd r \<in> set [CHR 0x22, CHR 0x27] \<or> last r \<in> set [CHR 0x22, CHR 0x27]")
    case True
    with assms(1) ne have "length ?c1 < length r" by (rule remove_quotes_shorter)
    with l3 l32 l21 show ?thesis by linarith
  next
    case quotes: False
    then have q: "hd r \<noteq> CHR 0x22" "last r \<noteq> CHR 0x22" "hd r \<noteq> CHR 0x27" "last r \<noteq> CHR 0x27"
      by simp_all
    from assms(1) have s: "strip r = r" by (rule strip_stripped)
    have d: "strip_chars [CHR 0x22] r = r"
      unfolding strip_chars_def using q by (intro strip_by_id) simp
    have a: "strip_chars [CHR 0x27] r = r"
      unfolding strip_chars_def using q by (intro strip_by_id) simp
    have c1: "?c1 = r" by (simp only: remove_quotes_def s d a)
    show ?thesis
    proof (cases "\<exists>p \<in> set prefixes_to_remove. startswith (lower r) p")
      case True
      with pne have "length (remove_prefix prefixes_to_remove (lower r) r) < length r"
        by (rule remove_prefix_shorter)
      then have "length ?c2 < length r" by (simp only: c1)
      with l3 l32 show ?thesis by linarith
    next
      case prefixes: False
      then have c2: "?c2 = r"
        unfolding c1 by (intro remove_prefix_none) simp
      from quotes prefixes assms(2) have "\<exists>m \<in> set explanation_markers. contains m r"
        by (auto simp: settled_def)
      with mne have "length (remove_explanation explanation_markers r) < length r"
        by (rule remove_explanation_shorter)
      then have "length ?c3 < length r" by (simp only: c2)
      with l3 show ?thesis by linarith
    qed
  qed
qed

text \<open>
  C5, as the specification states it, fails: only the first matching prefix is removed in
  one pass, so a second pass finds the next one.
\<close>

theorem cleanup_caption_idempotent_counterexample:
  "cleanup_caption (cleanup_caption ''caption: caption: a dog'')
   \<noteq> cleanup_caption ''caption: caption: a dog''"
  by code_simp

text \<open>
  C5 (amended): \<open>_cleanup_caption(_cleanup_caption(t)) = _cleanup_caption(t)\<close> holds for
  exactly those strings \<open>t\<close> whose cleaned caption is settled, that is, neither begins nor
  ends with a quote character, does not begin (in lower case) with one of the prefixes,
  and contains none of the explanation markers.
\<close>

theorem cleanup_caption_idempotent_iff_settled:
  "cleanup_caption (cleanup_caption t) = cleanup_caption t \<longleftrightarrow> settled (cleanup_caption t)"
proof
  assume "settled (cleanup_caption t)"
  then show "cleanup_caption (cleanup_caption t) = cleanup_caption t"
    by (rule cleanup_caption_fixed [OF cleanup_caption_shape])
next
  assume eq: "cleanup_caption (cleanup_caption t) = cleanup_caption t"
  show "settled (cleanup_caption t)"
  proof (rule ccontr)
    assume "\<not> settled (cleanup_caption t)"
    with cleanup_caption_shape(1)
    have "length (cleanup_caption (cleanup_caption t)) < length (cleanup_caption t)"
      by (rule cleanup_caption_shorter)
    with eq show False by simp
  qed
qed

theorem cleanup_caption_idempotent_iff_settled_witness:
  "settled (cleanup_caption ''Caption: A Man Is Walking.'')
   \<and> cleanup_caption (cleanup_caption ''Caption: A Man Is Walking.'')
       = cleanup_caption ''Caption: A Man Is Walking.''"
proof -
  have h: "settled (cleanup_caption ''Caption: A Man Is Walking.'')" by code_simp
  from h have "cleanup_caption (cleanup_caption ''Caption: A Man Is Walking.'')
      = cleanup_caption ''Caption: A Man Is Walking.''"
    by (rule cleanup_caption_idempotent_iff_settled [THEN iffD2])
  with h show ?thesis by (rule conjI)
qed

end
